theory Spec2Isabelle
  imports Main "HOL-Library.Word" "HOL-Library.Sublist"
begin

unbundle bit_operations_syntax

section \<open>Bytes, errors and in-memory readers\<close>

type_synonym byte = "8 word"

text \<open>
  The Go \<^verbatim>\<open>error\<close> values that the modelled code can return. The file-system errors are
  the \<^verbatim>\<open>syscall.Errno\<close> values wrapped in \<^verbatim>\<open>*fs.PathError\<close>.
\<close>

datatype error =
    EOF
  | ErrUnexpectedEOF
  | KeySizeError nat
  | ENOENT
  | ENOTDIR
  | EISDIR
  | EINVAL
  | ErrConnWrite
  | ErrListen
  | ErrDial
  | ErrGob
  | ErrShortWrite

text \<open>
  \<^verbatim>\<open>Read(buf)\<close> on a \<^verbatim>\<open>bytes.Reader\<close> or \<^verbatim>\<open>bytes.Buffer\<close> holding \<open>src\<close>, with
  \<open>n = len(buf) > 0\<close>: at the end of the data it returns \<^verbatim>\<open>0, io.EOF\<close> (here \<open>None\<close>),
  otherwise it copies as many bytes as fit and returns no error. The second component is
  what is left in the reader.
\<close>

definition Reader_Read :: "nat \<Rightarrow> byte list \<Rightarrow> (byte list \<times> byte list) option" where
  "Reader_Read n src = (if src = [] then None else Some (take n src, drop n src))"

text \<open>
  An \<^verbatim>\<open>io.Writer\<close> is a state \<open>'w\<close> with its \<^verbatim>\<open>Write\<close> method, which returns the new
  state, the number of bytes written and the error. \<^verbatim>\<open>bytes.Buffer.Write\<close> appends and
  never fails.
\<close>

type_synonym 'w writer = "'w \<Rightarrow> byte list \<Rightarrow> 'w \<times> nat \<times> error option"

definition Buffer_Write :: "byte list writer" where
  "Buffer_Write b p = (b @ p, length p, None)"

section \<open>crypto.go\<close>

text \<open>
  \<^verbatim>\<open>aes.NewCipher\<close> accepts keys of 16, 24 or 32 bytes and fails with a
  \<^verbatim>\<open>KeySizeError\<close> otherwise; the block it returns is determined by the key.
  \<^verbatim>\<open>block.BlockSize()\<close> is 16.
\<close>

definition aes_NewCipher :: "byte list \<Rightarrow> error + byte list" where
  "aes_NewCipher key =
     (if length key = 16 \<or> length key = 24 \<or> length key = 32 then Inr key
      else Inl (KeySizeError (length key)))"

definition aes_BlockSize :: nat where
  "aes_BlockSize = 16"

text \<open>
  A \<^verbatim>\<open>cipher.Stream\<close> made by \<^verbatim>\<open>cipher.NewCTR(block, iv)\<close> is a key stream (byte \<open>i\<close> of it
  is \<open>ks i\<close>) and a position. AES itself belongs to the Go library, so the key stream
  generator is a parameter \<open>ctr\<close> of the functions below: \<open>ctr block iv\<close> is the key
  stream of that block and initialisation value. \<^verbatim>\<open>XORKeyStream(dst, src)\<close> XORs each
  byte with the next byte of the key stream.
\<close>

type_synonym ctr_mode = "byte list \<Rightarrow> byte list \<Rightarrow> nat \<Rightarrow> byte"

fun XORKeyStream :: "(nat \<Rightarrow> byte) \<Rightarrow> nat \<Rightarrow> byte list \<Rightarrow> byte list" where
  "XORKeyStream ks pos [] = []"
| "XORKeyStream ks pos (b # bs) = (b XOR ks pos) # XORKeyStream ks (Suc pos) bs"

text \<open>
  \<^verbatim>\<open>copyStream\<close>: the loop reads up to 32 KiB, transforms what it read and writes it;
  a write error returns \<^verbatim>\<open>0, err\<close>, the end of the source leaves the loop. \<open>nw\<close> starts
  at the block size. \<open>pos\<close> is the position of the stream, which the Go object keeps.
\<close>

function copyStream ::
  "(nat \<Rightarrow> byte) \<Rightarrow> nat \<Rightarrow> byte list \<Rightarrow> 'w writer \<Rightarrow> 'w \<Rightarrow> nat \<Rightarrow> 'w \<times> (error + nat)" where
  "copyStream ks pos src wr dst nw =
     (case Reader_Read (32 * 1024) src of
        None \<Rightarrow> (dst, Inr nw)
      | Some (chunk, src') \<Rightarrow>
          (case wr dst (XORKeyStream ks pos chunk) of
             (dst', nn, Some err) \<Rightarrow> (dst', Inl err)
           | (dst', nn, None) \<Rightarrow>
               copyStream ks (pos + length chunk) src' wr dst' (nw + nn)))"
  by pat_completeness auto
termination
  by (relation "measure (\<lambda>(ks, pos, src, wr, dst, nw). length src)")
     (auto simp: Reader_Read_def split: if_splits)

declare copyStream.simps [simp del]

text \<open>
  \<^verbatim>\<open>copyEncrypt\<close>. \<open>rnd\<close> is what \<^verbatim>\<open>rand.Reader\<close> delivers to this call:
  \<^verbatim>\<open>io.ReadFull\<close> fails unless it gets 16 bytes.
\<close>

definition ReadFull :: "nat \<Rightarrow> byte list \<Rightarrow> error + byte list" where
  "ReadFull n rnd =
     (if n \<le> length rnd then Inr (take n rnd)
      else if rnd = [] then Inl EOF else Inl ErrUnexpectedEOF)"

definition copyEncrypt ::
  "ctr_mode \<Rightarrow> byte list \<Rightarrow> byte list \<Rightarrow> byte list \<Rightarrow> 'w writer \<Rightarrow> 'w \<Rightarrow> 'w \<times> (error + nat)" where
  "copyEncrypt ctr key rnd src wr dst =
     (case aes_NewCipher key of
        Inl err \<Rightarrow> (dst, Inl err)
      | Inr block \<Rightarrow>
          (case ReadFull aes_BlockSize rnd of
             Inl err \<Rightarrow> (dst, Inl err)
           | Inr iv \<Rightarrow>
               (case wr dst iv of
                  (dst', _, Some err) \<Rightarrow> (dst', Inl err)
                | (dst', _, None) \<Rightarrow>
                    copyStream (ctr block iv) 0 src wr dst' aes_BlockSize)))"

text \<open>
  \<^verbatim>\<open>copyDecrypt\<close>. \<^verbatim>\<open>src.Read(iv)\<close> is a single read into a zeroed 16-byte slice: a
  source with fewer than 16 bytes leaves the tail of \<open>iv\<close> zero and is no error.
\<close>

definition copyDecrypt ::
  "ctr_mode \<Rightarrow> byte list \<Rightarrow> byte list \<Rightarrow> 'w writer \<Rightarrow> 'w \<Rightarrow> 'w \<times> (error + nat)" where
  "copyDecrypt ctr key src wr dst =
     (case aes_NewCipher key of
        Inl err \<Rightarrow> (dst, Inl err)
      | Inr block \<Rightarrow>
          (case Reader_Read aes_BlockSize src of
             None \<Rightarrow> (dst, Inl EOF)
           | Some (got, src') \<Rightarrow>
               (let iv = got @ replicate (aes_BlockSize - length got) 0
                in copyStream (ctr block iv) 0 src' wr dst aes_BlockSize)))"

section \<open>Properties of the stream cipher codec\<close>

lemma XORKeyStream_length [simp]: "length (XORKeyStream ks pos bs) = length bs"
  by (induction bs arbitrary: pos) simp_all

lemma XORKeyStream_append:
  "XORKeyStream ks pos (as @ bs) = XORKeyStream ks pos as @ XORKeyStream ks (pos + length as) bs"
  by (induction as arbitrary: pos) simp_all

lemma XORKeyStream_twice [simp]: "XORKeyStream ks pos (XORKeyStream ks pos bs) = bs"
  by (induction bs arbitrary: pos) (simp_all add: xor.assoc)

lemma copyStream_Buffer:
  "copyStream ks pos src Buffer_Write dst nw =
     (dst @ XORKeyStream ks pos src, Inr (nw + length src))"
proof (induction src arbitrary: pos dst nw rule: length_induct)
  case (1 src)
  show ?case
  proof (cases "src = []")
    case True
    then show ?thesis
      by (simp add: copyStream.simps [of ks pos "[]"] Reader_Read_def)
  next
    case False
    let ?c = "take (32 * 1024) src" and ?r = "drop (32 * 1024) src"
    have rd: "Reader_Read (32 * 1024) src = Some (?c, ?r)"
      using False by (simp add: Reader_Read_def)
    have wr: "Buffer_Write dst (XORKeyStream ks pos ?c)
                = (dst @ XORKeyStream ks pos ?c, length ?c, None)"
      by (simp add: Buffer_Write_def)
    have step: "copyStream ks pos src Buffer_Write dst nw =
                copyStream ks (pos + length ?c) ?r Buffer_Write
                  (dst @ XORKeyStream ks pos ?c) (nw + length ?c)"
      using rd wr by (subst copyStream.simps) simp
    have ih: "copyStream ks (pos + length ?c) ?r Buffer_Write
                (dst @ XORKeyStream ks pos ?c) (nw + length ?c) =
              ((dst @ XORKeyStream ks pos ?c) @ XORKeyStream ks (pos + length ?c) ?r,
               Inr (nw + length ?c + length ?r))"
      using False by (intro "1.IH" [rule_format]) simp
    have "XORKeyStream ks pos ?c @ XORKeyStream ks (pos + length ?c) ?r
            = XORKeyStream ks pos (?c @ ?r)"
      by (simp only: XORKeyStream_append)
    moreover have "length ?c + length ?r = length src"
      by simp
    ultimately show ?thesis
      unfolding step ih by (simp add: add.assoc)
  qed
qed

text \<open>
  C1. For every payload \<open>M\<close>, every key of a valid AES length and a random source that
  delivers the 16 bytes of the initialisation value, \<^verbatim>\<open>copyEncrypt\<close> into an empty
  buffer succeeds, its output is 16 + |M| bytes long, and \<^verbatim>\<open>copyDecrypt\<close> of that output
  with the same key writes exactly \<open>M\<close>.
\<close>

theorem copyEncrypt_copyDecrypt_roundtrip:
  assumes "length key = 16 \<or> length key = 24 \<or> length key = 32"
    and "16 \<le> length rnd"
  shows "\<exists>ct. copyEncrypt ctr key rnd M Buffer_Write [] = (ct, Inr (16 + length M))
            \<and> length ct = 16 + length M
            \<and> copyDecrypt ctr key ct Buffer_Write [] = (M, Inr (16 + length M))"
proof -
  let ?iv = "take 16 rnd"
  let ?ct = "?iv @ XORKeyStream (ctr key ?iv) 0 M"
  have len: "length ?iv = 16"
    using assms(2) by simp
  have enc: "copyEncrypt ctr key rnd M Buffer_Write [] = (?ct, Inr (16 + length M))"
    using assms
    by (simp add: copyEncrypt_def aes_NewCipher_def ReadFull_def aes_BlockSize_def
        Buffer_Write_def copyStream_Buffer)
  have ne: "?iv \<noteq> []"
    using len by auto
  have rd: "Reader_Read 16 ?ct = Some (?iv, XORKeyStream (ctr key ?iv) 0 M)"
    using len ne by (simp add: Reader_Read_def)
  have dec: "copyDecrypt ctr key ?ct Buffer_Write [] = (M, Inr (16 + length M))"
    using assms(1) len
    by (simp add: copyDecrypt_def aes_NewCipher_def aes_BlockSize_def rd
        copyStream_Buffer del: append_take_drop_id)
  show ?thesis
    using enc dec len by (intro exI [of _ ?ct]) simp
qed

text \<open>A concrete key stream generator, used to run the codec on examples.\<close>

definition example_ctr :: ctr_mode where
  "example_ctr block iv i = (iv ! (i mod 16)) + (block ! (i mod 16)) + of_nat i"

theorem copyEncrypt_copyDecrypt_roundtrip_witness:
  "\<exists>ct. copyEncrypt example_ctr (replicate 16 1) (replicate 16 7) [72, 105] Buffer_Write []
           = (ct, Inr 18)
        \<and> length ct = 18
        \<and> copyDecrypt example_ctr (replicate 16 1) ct Buffer_Write [] = ([72, 105], Inr 18)"
  using copyEncrypt_copyDecrypt_roundtrip
    [of "replicate 16 1" "replicate 16 7" example_ctr "[72, 105]"]
  by simp

section \<open>store.go: content-addressed paths\<close>

record PathKey =
  PathName :: string
  Filename :: string

text \<open>\<^verbatim>\<open>hex.EncodeToString\<close>: two lower-case digits for each byte, high nibble first.\<close>

definition hextable :: string where
  "hextable = ''0123456789abcdef''"

definition hex_EncodeToString :: "byte list \<Rightarrow> string" where
  "hex_EncodeToString src =
     concat (map (\<lambda>v. [hextable ! unat (drop_bit 4 v), hextable ! unat (v AND 0x0f)]) src)"

text \<open>\<^verbatim>\<open>strings.Join(elems, sep)\<close> and the slice expression \<^verbatim>\<open>s[from:to]\<close>.\<close>

fun strings_Join :: "string list \<Rightarrow> string \<Rightarrow> string" where
  "strings_Join [] sep = []"
| "strings_Join [x] sep = x"
| "strings_Join (x # y # ys) sep = x @ sep @ strings_Join (y # ys) sep"

definition slice :: "string \<Rightarrow> nat \<Rightarrow> nat \<Rightarrow> string" where
  "slice s from to = take (to - from) (drop from s)"

text \<open>
  \<^verbatim>\<open>CASPathTransformFunc\<close>. \<^verbatim>\<open>sha1.Sum\<close> belongs to the Go library and is the parameter
  \<open>sha1_Sum\<close>; its result type is \<^verbatim>\<open>[20]byte\<close>. The loop fills \<^verbatim>\<open>paths[i]\<close> for
  \<open>i = 0, ..., sliceLen - 1\<close>.
\<close>

definition CASPathTransformFunc :: "(string \<Rightarrow> byte list) \<Rightarrow> string \<Rightarrow> PathKey" where
  "CASPathTransformFunc sha1_Sum key =
     (let hash = sha1_Sum key;
          hashStr = hex_EncodeToString hash;
          blocksize = 5;
          sliceLen = length hashStr div blocksize;
          paths = map (\<lambda>i. slice hashStr (i * blocksize) (i * blocksize + blocksize)) [0..<sliceLen]
      in \<lparr>PathName = strings_Join paths ''/'', Filename = hashStr\<rparr>)"

text \<open>
  The specification's wording, "split into consecutive fixed-width segments": cut \<open>n\<close>
  characters off the front as long as \<open>n\<close> characters are left.
\<close>

function spec_segments :: "nat \<Rightarrow> string \<Rightarrow> string list" where
  "spec_segments n s =
     (if n = 0 \<or> length s < n then [] else take n s # spec_segments n (drop n s))"
  by pat_completeness auto
termination
  by (relation "measure (\<lambda>(n, s). length s)") auto

declare spec_segments.simps [simp del]

section \<open>Properties of the path transformation\<close>

lemma hex_EncodeToString_length [simp]: "length (hex_EncodeToString bs) = 2 * length bs"
  by (induction bs) (simp_all add: hex_EncodeToString_def)

lemma hex_EncodeToString_Cons:
  "hex_EncodeToString (v # bs) =
     hextable ! unat (drop_bit 4 v) # hextable ! unat (v AND 0x0f) # hex_EncodeToString bs"
  by (simp add: hex_EncodeToString_def)

lemma hex_EncodeToString_Nil [simp]: "hex_EncodeToString [] = []"
  by (simp add: hex_EncodeToString_def)

lemma nibble_div: "drop_bit 4 (v :: byte) = v div 16"
  by (simp add: drop_bit_eq_div)

lemma nibble_mod: "(v :: byte) AND 0x0f = v mod 16"
proof -
  have "v AND 0x0f = take_bit 4 v"
    by (simp add: take_bit_eq_mask mask_eq_exp_minus_1)
  then show ?thesis
    by (simp add: take_bit_eq_mod)
qed

lemma nibble_hi_less: "unat (drop_bit 4 (v :: byte)) < 16"
proof -
  have "unat v < 256"
    using unsigned_less [of v] by simp
  then show ?thesis
    by (simp add: nibble_div unat_div)
qed

lemma nibble_lo_less: "unat ((v :: byte) AND 0x0f) < 16"
  by (simp add: nibble_mod unat_mod)

lemma hextable_inj:
  assumes "i < 16" "j < 16" "hextable ! i = hextable ! j"
  shows "i = j"
proof -
  have "distinct hextable"
    by (simp add: hextable_def)
  moreover have "i < length hextable" "j < length hextable"
    using assms by (simp_all add: hextable_def)
  ultimately show ?thesis
    using assms(3) by (simp add: nth_eq_iff_index_eq)
qed

lemma byte_from_nibbles:
  fixes v w :: byte
  assumes "drop_bit 4 v = drop_bit 4 w" "v AND 0x0f = w AND 0x0f"
  shows "v = w"
proof -
  have "v div 16 = w div 16" "v mod 16 = w mod 16"
    using assms by (simp_all only: nibble_div nibble_mod)
  then show ?thesis
    by (metis div_mult_mod_eq)
qed

lemma hex_EncodeToString_inj:
  "hex_EncodeToString xs = hex_EncodeToString ys \<Longrightarrow> xs = ys"
proof (induction xs arbitrary: ys)
  case Nil
  then have "length (hex_EncodeToString ys) = 0"
    by (metis hex_EncodeToString_Nil list.size(3))
  then show ?case by simp
next
  case (Cons v xs)
  from Cons.prems have "length (hex_EncodeToString ys) = 2 * length (v # xs)"
    by (metis hex_EncodeToString_length)
  then obtain w zs where ys: "ys = w # zs"
    by (cases ys) auto
  from Cons.prems have
    hi: "hextable ! unat (drop_bit 4 v) = hextable ! unat (drop_bit 4 w)" and
    lo: "hextable ! unat (v AND 0x0f) = hextable ! unat (w AND 0x0f)" and
    tl: "hex_EncodeToString xs = hex_EncodeToString zs"
    unfolding ys hex_EncodeToString_Cons by simp_all
  have "unat (drop_bit 4 v) = unat (drop_bit 4 w)"
    by (rule hextable_inj [OF nibble_hi_less nibble_hi_less hi])
  then have h: "drop_bit 4 v = drop_bit 4 w"
    by (rule unsigned_word_eqI)
  have "unat (v AND 0x0f) = unat (w AND 0x0f)"
    by (rule hextable_inj [OF nibble_lo_less nibble_lo_less lo])
  then have l: "v AND 0x0f = w AND 0x0f"
    by (rule unsigned_word_eqI)
  have "v = w"
    by (rule byte_from_nibbles [OF h l])
  with Cons.IH [OF tl] ys show ?case by simp
qed

lemma hex_EncodeToString_digits:
  "c \<in> set (hex_EncodeToString bs) \<Longrightarrow> c \<in> set hextable"
proof (induction bs)
  case Nil
  then show ?case by simp
next
  case (Cons v bs)
  have "hextable ! unat (drop_bit 4 v) \<in> set hextable"
    using nibble_hi_less [of v] by (intro nth_mem) (simp add: hextable_def)
  moreover have "hextable ! unat (v AND 0x0f) \<in> set hextable"
    using nibble_lo_less [of v] by (intro nth_mem) (simp add: hextable_def)
  ultimately show ?case
    using Cons unfolding hex_EncodeToString_Cons by auto
qed

lemma spec_segments_lengths: "seg \<in> set (spec_segments n s) \<Longrightarrow> length seg = n"
proof (induction n s rule: spec_segments.induct)
  case (1 n s)
  then show ?case
    by (subst (asm) (2) spec_segments.simps) (auto split: if_splits)
qed

lemma spec_segments_concat:
  "0 < n \<Longrightarrow> concat (spec_segments n s) = take (n * (length s div n)) s"
proof (induction n s rule: spec_segments.induct)
  case (1 n s)
  show ?case
  proof (cases "length s < n")
    case True
    then show ?thesis
      by (subst spec_segments.simps) simp
  next
    case False
    with "1.prems" have d: "length s div n = Suc ((length s - n) div n)"
      by (simp add: le_div_geq)
    have "concat (spec_segments n s) = take n s @ concat (spec_segments n (drop n s))"
      using False "1.prems" by (subst spec_segments.simps) simp
    also have "\<dots> = take n s @ take (n * ((length s - n) div n)) (drop n s)"
      using "1.IH" False "1.prems" by simp
    also have "\<dots> = take (n + n * ((length s - n) div n)) s"
      by (simp add: take_add)
    finally show ?thesis
      by (simp add: d)
  qed
qed

lemma spec_segments_count: "0 < n \<Longrightarrow> length (spec_segments n s) = length s div n"
proof (induction n s rule: spec_segments.induct)
  case (1 n s)
  show ?case
  proof (cases "length s < n")
    case True
    then show ?thesis
      by (subst spec_segments.simps) simp
  next
    case False
    with "1.prems" have d: "length s div n = Suc ((length s - n) div n)"
      by (simp add: le_div_geq)
    show ?thesis
      using False "1.prems" "1.IH" by (subst spec_segments.simps) (simp add: d)
  qed
qed

text \<open>The loop of \<^verbatim>\<open>CASPathTransformFunc\<close> computes the specification's segments.\<close>

lemma slices_eq_spec_segments:
  "0 < n \<Longrightarrow>
   map (\<lambda>i. slice s (i * n) (i * n + n)) [0..<length s div n] = spec_segments n s"
proof (induction n s rule: spec_segments.induct)
  case (1 n s)
  show ?case
  proof (cases "length s < n")
    case True
    then show ?thesis
      by (subst spec_segments.simps) simp
  next
    case False
    with "1.prems" have d: "length s div n = Suc ((length s - n) div n)"
      by (simp add: le_div_geq)
    have sh: "slice s (Suc i * n) (Suc i * n + n) = slice (drop n s) (i * n) (i * n + n)" for i
      by (simp add: slice_def add.commute)
    have "map (\<lambda>i. slice s (i * n) (i * n + n)) [0..<length s div n]
            = slice s 0 n # map (\<lambda>i. slice s (Suc i * n) (Suc i * n + n)) [0..<(length s - n) div n]"
      unfolding d by (simp only: map_upt_Suc) simp
    also have "\<dots> = take n s # map (\<lambda>i. slice (drop n s) (i * n) (i * n + n)) [0..<length (drop n s) div n]"
      by (simp only: sh) (simp add: slice_def)
    also have "\<dots> = take n s # spec_segments n (drop n s)"
      using "1.IH" False "1.prems" by simp
    also have "\<dots> = spec_segments n s"
      using False "1.prems" by (subst (2) spec_segments.simps) simp
    finally show ?thesis .
  qed
qed

lemma CASPathTransformFunc_eq:
  "CASPathTransformFunc sha1_Sum K =
     \<lparr>PathName = strings_Join (spec_segments 5 (hex_EncodeToString (sha1_Sum K))) ''/'',
      Filename = hex_EncodeToString (sha1_Sum K)\<rparr>"
  using slices_eq_spec_segments [of 5 "hex_EncodeToString (sha1_Sum K)"]
  by (simp add: CASPathTransformFunc_def Let_def)

text \<open>A digest function for running examples: 19 zero bytes and the length of the key.\<close>

definition example_sum :: "string \<Rightarrow> byte list" where
  "example_sum key = replicate 19 0 @ [of_nat (length key)]"

text \<open>
  C2. The model of \<^verbatim>\<open>CASPathTransformFunc\<close> is a function of the key alone (it reads and
  writes no state, so repeated calls give the same \<open>PathKey\<close>). For a 20-byte digest the
  directory component is the hex digest cut into 8 consecutive segments of 5 characters,
  which together are the whole digest, joined by \<open>/\<close>; the file name is the hex digest;
  and the file names of two keys differ exactly when their digests differ.
\<close>

theorem CASPathTransformFunc_layout:
  assumes "length (sha1_Sum K) = 20"
  shows "(let h = hex_EncodeToString (sha1_Sum K); segs = spec_segments 5 h;
              p = CASPathTransformFunc sha1_Sum K
          in PathName p = strings_Join segs ''/''
           \<and> length segs = 8 \<and> (\<forall>seg \<in> set segs. length seg = 5) \<and> concat segs = h
           \<and> Filename p = h
           \<and> (Filename p \<noteq> Filename (CASPathTransformFunc sha1_Sum K')
                \<longleftrightarrow> sha1_Sum K \<noteq> sha1_Sum K'))"
proof -
  let ?h = "hex_EncodeToString (sha1_Sum K)"
  have len: "length ?h = 40"
    using assms by simp
  have "length (spec_segments 5 ?h) = 8"
    using assms by (simp add: spec_segments_count)
  moreover have "\<forall>seg \<in> set (spec_segments 5 ?h). length seg = 5"
    by (simp add: spec_segments_lengths)
  moreover have "concat (spec_segments 5 ?h) = ?h"
    using assms by (simp add: spec_segments_concat)
  moreover have "?h \<noteq> hex_EncodeToString (sha1_Sum K') \<longleftrightarrow> sha1_Sum K \<noteq> sha1_Sum K'"
    using hex_EncodeToString_inj [of "sha1_Sum K" "sha1_Sum K'"] by auto
  ultimately show ?thesis
    by (simp add: CASPathTransformFunc_eq Let_def)
qed

theorem CASPathTransformFunc_layout_witness:
  "length (example_sum ''picture_0.png'') = 20 \<and>
   PathName (CASPathTransformFunc example_sum ''picture_0.png'')
     = ''00000/00000/00000/00000/00000/00000/00000/0000d'' \<and>
   Filename (CASPathTransformFunc example_sum ''picture_0.png'')
     = ''000000000000000000000000000000000000000d'' \<and>
   Filename (CASPathTransformFunc example_sum ''picture_0.png'')
     \<noteq> Filename (CASPathTransformFunc example_sum ''k'') \<and>
   (let h = hex_EncodeToString (example_sum ''picture_0.png''); segs = spec_segments 5 h;
        p = CASPathTransformFunc example_sum ''picture_0.png''
    in PathName p = strings_Join segs ''/''
     \<and> length segs = 8 \<and> (\<forall>seg \<in> set segs. length seg = 5) \<and> concat segs = h
     \<and> Filename p = h
     \<and> (Filename p \<noteq> Filename (CASPathTransformFunc example_sum ''k'')
          \<longleftrightarrow> example_sum ''picture_0.png'' \<noteq> example_sum ''k''))"
proof -
  have l: "length (example_sum ''picture_0.png'') = 20"
    by (simp add: example_sum_def)
  have p: "CASPathTransformFunc example_sum ''picture_0.png'' =
     \<lparr>PathName = ''00000/00000/00000/00000/00000/00000/00000/0000d'',
      Filename = ''000000000000000000000000000000000000000d''\<rparr>"
    by code_simp
  have q: "Filename (CASPathTransformFunc example_sum ''k'')
             = ''0000000000000000000000000000000000000001''"
    by code_simp
  show ?thesis
    using CASPathTransformFunc_layout [of example_sum "''picture_0.png''" "''k''"] l
    unfolding p q by simp
qed

section \<open>A model of the file system calls used by store.go\<close>

text \<open>
  The file system is a tree without links in which the process may read and write
  everything; the working directory is the root of the tree. It is represented by the
  partial map from a canonical path (the list of names from the root) to what is there.
\<close>

datatype entry = FileE "byte list" | DirE

type_synonym filesys = "string list \<rightharpoonup> entry"

text \<open>\<^verbatim>\<open>strings.Split(s, sep)\<close> for a separator of one character.\<close>

fun strings_Split :: "string \<Rightarrow> char \<Rightarrow> string list" where
  "strings_Split [] sep = [[]]"
| "strings_Split (c # cs) sep =
     (if c = sep then [] # strings_Split cs sep
      else (case strings_Split cs sep of [] \<Rightarrow> [[c]] | x # xs \<Rightarrow> (c # x) # xs))"

text \<open>
  Path resolution, one component at a time: the directory reached so far must exist and
  be a directory; an empty component (from \<open>//\<close> or a trailing \<open>/\<close>) and \<open>.\<close> stay
  there, \<open>..\<close> goes to the parent (the root is its own parent), a name goes below.
\<close>

definition walk_step :: "filesys \<Rightarrow> string list \<Rightarrow> string \<Rightarrow> error + string list" where
  "walk_step fs cur c =
     (case fs cur of
        None \<Rightarrow> Inl ENOENT
      | Some (FileE _) \<Rightarrow> Inl ENOTDIR
      | Some DirE \<Rightarrow>
          if c = [] \<or> c = ''.'' then Inr cur
          else if c = ''..'' then Inr (butlast cur)
          else Inr (cur @ [c]))"

fun walk :: "filesys \<Rightarrow> string list \<Rightarrow> string list \<Rightarrow> error + string list" where
  "walk fs cur [] = Inr cur"
| "walk fs cur (c # cs) =
     (case walk_step fs cur c of Inl e \<Rightarrow> Inl e | Inr cur' \<Rightarrow> walk fs cur' cs)"

text \<open>The lookup of a path: the empty path does not exist.\<close>

definition namei :: "filesys \<Rightarrow> string \<Rightarrow> error + (string list \<times> entry)" where
  "namei fs path =
     (if path = [] then Inl ENOENT
      else case walk fs [] (strings_Split path CHR ''/'') of
             Inl e \<Rightarrow> Inl e
           | Inr p \<Rightarrow> (case fs p of None \<Rightarrow> Inl ENOENT | Some e \<Rightarrow> Inr (p, e)))"

text \<open>\<^verbatim>\<open>os.Stat\<close> returns what is at the path; \<^verbatim>\<open>os.Open\<close> opens it for reading.\<close>

definition os_Stat :: "filesys \<Rightarrow> string \<Rightarrow> error + entry" where
  "os_Stat fs path = (case namei fs path of Inl e \<Rightarrow> Inl e | Inr (p, e) \<Rightarrow> Inr e)"

definition os_Open :: "filesys \<Rightarrow> string \<Rightarrow> error + entry" where
  "os_Open fs path = (case namei fs path of Inl e \<Rightarrow> Inl e | Inr (p, e) \<Rightarrow> Inr e)"

text \<open>
  \<^verbatim>\<open>FileInfo.Size()\<close>: the length of a regular file; for a directory the value depends
  on the system (4096 here) and no caller in this repository looks at it.
\<close>

definition FileInfo_Size :: "entry \<Rightarrow> int" where
  "FileInfo_Size e = (case e of FileE b \<Rightarrow> int (length b) | DirE \<Rightarrow> 4096)"

text \<open>
  \<^verbatim>\<open>os.MkdirAll\<close> creates the directories of the path that are missing, from the left,
  and fails when a name on the path is a regular file. Directories made before the
  failure stay.
\<close>

definition mkdir_step ::
  "filesys \<Rightarrow> string list \<Rightarrow> string \<Rightarrow> filesys \<times> (error + string list)" where
  "mkdir_step fs cur c =
     (if c = [] \<or> c = ''.'' then (fs, Inr cur)
      else if c = ''..'' then (fs, Inr (butlast cur))
      else (case fs (cur @ [c]) of
              None \<Rightarrow> (fs(cur @ [c] \<mapsto> DirE), Inr (cur @ [c]))
            | Some DirE \<Rightarrow> (fs, Inr (cur @ [c]))
            | Some (FileE _) \<Rightarrow> (fs, Inl ENOTDIR)))"

fun mkdirs :: "filesys \<Rightarrow> string list \<Rightarrow> string list \<Rightarrow> filesys \<times> error option" where
  "mkdirs fs cur [] = (fs, None)"
| "mkdirs fs cur (c # cs) =
     (case mkdir_step fs cur c of
        (fs', Inl e) \<Rightarrow> (fs', Some e)
      | (fs', Inr cur') \<Rightarrow> mkdirs fs' cur' cs)"

definition os_MkdirAll :: "filesys \<Rightarrow> string \<Rightarrow> filesys \<times> error option" where
  "os_MkdirAll fs path =
     (if path = [] then (fs, Some ENOENT)
      else mkdirs fs [] (strings_Split path CHR ''/''))"

text \<open>
  \<^verbatim>\<open>os.Create\<close> opens with \<^verbatim>\<open>O_RDWR|O_CREATE|O_TRUNC\<close>: the directory part must resolve,
  a directory cannot be opened for writing, an existing file is truncated. The result is
  the open file, named by its canonical path.
\<close>

definition os_Create :: "filesys \<Rightarrow> string \<Rightarrow> filesys \<times> (error + string list)" where
  "os_Create fs path =
     (if path = [] then (fs, Inl ENOENT)
      else
        (let comps = strings_Split path CHR ''/''; base = last comps
         in case walk fs [] comps of
              Inl e \<Rightarrow> (fs, Inl e)
            | Inr p \<Rightarrow>
                if base = [] \<or> base = ''.'' \<or> base = ''..'' then (fs, Inl EISDIR)
                else (case fs p of
                        Some DirE \<Rightarrow> (fs, Inl EISDIR)
                      | _ \<Rightarrow> (fs(p \<mapsto> FileE []), Inr p))))"

text \<open>\<^verbatim>\<open>(*os.File).Write\<close> on the file opened at \<open>p\<close> appends to it.\<close>

definition File_Write :: "string list \<Rightarrow> filesys writer" where
  "File_Write p fs b =
     (fs(p \<mapsto> FileE ((case fs p of Some (FileE old) \<Rightarrow> old | _ \<Rightarrow> []) @ b)), length b, None)"

text \<open>
  \<^verbatim>\<open>os.RemoveAll\<close>: the empty path is no error, a path whose last component is \<open>.\<close>
  is \<^verbatim>\<open>EINVAL\<close>, a path that does not exist is no error, and otherwise what is at the
  path is removed with everything below it. Removing the root of the tree or a path
  whose last component is \<open>..\<close> is outside this model, which then changes nothing and
  reports \<^verbatim>\<open>EINVAL\<close>.
\<close>

definition endsWithDot :: "string \<Rightarrow> bool" where
  "endsWithDot path \<longleftrightarrow>
     path = ''.'' \<or>
     (2 \<le> length path \<and> path ! (length path - 1) = CHR ''.''
        \<and> path ! (length path - 2) = CHR ''/'')"

definition os_RemoveAll :: "filesys \<Rightarrow> string \<Rightarrow> filesys \<times> error option" where
  "os_RemoveAll fs path =
     (if path = [] then (fs, None)
      else if endsWithDot path then (fs, Some EINVAL)
      else
        (let comps = strings_Split path CHR ''/''
         in case walk fs [] comps of
              Inl e \<Rightarrow> (fs, if e = ENOENT then None else Some e)
            | Inr p \<Rightarrow>
                if p = [] \<or> last comps = ''..'' then (fs, Some EINVAL)
                else (\<lambda>q. if prefix p q then None else fs q, None)))"

text \<open>The empty disk, and what every file system satisfies: entries hang below directories.\<close>

definition empty_fs :: filesys where
  "empty_fs = [[] \<mapsto> DirE]"

definition wf_fs :: "filesys \<Rightarrow> bool" where
  "wf_fs fs \<longleftrightarrow> fs [] = Some DirE \<and> (\<forall>q c. fs (q @ [c]) \<noteq> None \<longrightarrow> fs q = Some DirE)"

section \<open>store.go: the store\<close>

definition FirstPathName :: "PathKey \<Rightarrow> string" where
  "FirstPathName p =
     (let paths = strings_Split (PathName p) CHR ''/''
      in case paths of [] \<Rightarrow> [] | x # _ \<Rightarrow> x)"

definition FullPath :: "PathKey \<Rightarrow> string" where
  "FullPath p = PathName p @ ''/'' @ Filename p"

text \<open>
  \<^verbatim>\<open>StoreOpts\<close> as passed to \<^verbatim>\<open>NewStore\<close>, where the function may be \<^verbatim>\<open>nil\<close>, and the
  \<^verbatim>\<open>Store\<close> that \<^verbatim>\<open>NewStore\<close> returns, with the defaults filled in.
\<close>

record StoreOpts =
  opts_Root :: string
  opts_PathTransformFunc :: "(string \<Rightarrow> PathKey) option"

record Store =
  Root :: string
  PathTransformFunc :: "string \<Rightarrow> PathKey"

definition defaultRootFolderName :: string where
  "defaultRootFolderName = ''ggnetwork''"

definition DefaultPathTransformFunc :: "string \<Rightarrow> PathKey" where
  "DefaultPathTransformFunc key = \<lparr>PathName = key, Filename = key\<rparr>"

definition NewStore :: "StoreOpts \<Rightarrow> Store" where
  "NewStore opts =
     \<lparr>Root = (if length (opts_Root opts) = 0 then defaultRootFolderName else opts_Root opts),
      PathTransformFunc =
        (case opts_PathTransformFunc opts of None \<Rightarrow> DefaultPathTransformFunc | Some f \<Rightarrow> f)\<rparr>"

text \<open>\<^verbatim>\<open>fmt.Sprintf("%s/%s/%s", a, b, c)\<close>.\<close>

definition Sprintf3 :: "string \<Rightarrow> string \<Rightarrow> string \<Rightarrow> string" where
  "Sprintf3 a b c = a @ ''/'' @ b @ ''/'' @ c"

text \<open>\<^verbatim>\<open>errors.Is(err, os.ErrNotExist)\<close>, which is false for \<^verbatim>\<open>nil\<close>.\<close>

definition is_ErrNotExist :: "error option \<Rightarrow> bool" where
  "is_ErrNotExist err \<longleftrightarrow> err = Some ENOENT"

definition Has :: "Store \<Rightarrow> filesys \<Rightarrow> string \<Rightarrow> string \<Rightarrow> bool" where
  "Has s fs id' key =
     (let pathKey = PathTransformFunc s key;
          fullPathWithRoot = Sprintf3 (Root s) id' (FullPath pathKey);
          err = (case os_Stat fs fullPathWithRoot of Inl e \<Rightarrow> Some e | Inr _ \<Rightarrow> None)
      in \<not> is_ErrNotExist err)"

definition Clear :: "Store \<Rightarrow> filesys \<Rightarrow> filesys \<times> error option" where
  "Clear s fs = os_RemoveAll fs (Root s)"

definition Delete :: "Store \<Rightarrow> filesys \<Rightarrow> string \<Rightarrow> string \<Rightarrow> filesys \<times> error option" where
  "Delete s fs id' key =
     (let pathKey = PathTransformFunc s key;
          firstPathNameWithRoot = Sprintf3 (Root s) id' (FirstPathName pathKey)
      in os_RemoveAll fs firstPathNameWithRoot)"

definition openFileForWriting ::
  "Store \<Rightarrow> filesys \<Rightarrow> string \<Rightarrow> string \<Rightarrow> filesys \<times> (error + string list)" where
  "openFileForWriting s fs id' key =
     (let pathKey = PathTransformFunc s key;
          pathNameWithRoot = Sprintf3 (Root s) id' (PathName pathKey)
      in case os_MkdirAll fs pathNameWithRoot of
           (fs', Some err) \<Rightarrow> (fs', Inl err)
         | (fs', None) \<Rightarrow>
             (let fullPathWithRoot = Sprintf3 (Root s) id' (FullPath pathKey)
              in os_Create fs' fullPathWithRoot))"

text \<open>
  \<^verbatim>\<open>writeStream\<close>: \<open>r\<close> is what the reader yields up to its end; \<^verbatim>\<open>io.Copy\<close> writes all
  of it to the file and returns its length.
\<close>

definition io_Copy :: "'w writer \<Rightarrow> 'w \<Rightarrow> byte list \<Rightarrow> 'w \<times> (error + int)" where
  "io_Copy wr dst r =
     (if r = [] then (dst, Inr 0)
      else case wr dst r of
             (dst', n, Some err) \<Rightarrow> (dst', Inl err)
           | (dst', n, None) \<Rightarrow> (dst', Inr (int n)))"

definition writeStream ::
  "Store \<Rightarrow> filesys \<Rightarrow> string \<Rightarrow> string \<Rightarrow> byte list \<Rightarrow> filesys \<times> (error + int)" where
  "writeStream s fs id' key r =
     (case openFileForWriting s fs id' key of
        (fs', Inl err) \<Rightarrow> (fs', Inl err)
      | (fs', Inr f) \<Rightarrow> io_Copy (File_Write f) fs' r)"

definition Write ::
  "Store \<Rightarrow> filesys \<Rightarrow> string \<Rightarrow> string \<Rightarrow> byte list \<Rightarrow> filesys \<times> (error + int)" where
  "Write s fs id' key r = writeStream s fs id' key r"


definition readStream :: "Store \<Rightarrow> filesys \<Rightarrow> string \<Rightarrow> string \<Rightarrow> error + (int \<times> entry)" where
  "readStream s fs id' key =
     (let pathKey = PathTransformFunc s key;
          fullPathWithRoot = Sprintf3 (Root s) id' (FullPath pathKey)
      in case os_Open fs fullPathWithRoot of
           Inl err \<Rightarrow> Inl err
         | Inr file \<Rightarrow> Inr (FileInfo_Size file, file))"

definition Read :: "Store \<Rightarrow> filesys \<Rightarrow> string \<Rightarrow> string \<Rightarrow> error + (int \<times> entry)" where
  "Read s fs id' key = readStream s fs id' key"

section \<open>Paths as lists of components\<close>

lemma strings_Split_not_Nil [simp]: "strings_Split s sep \<noteq> []"
  by (induction s) (auto split: list.splits)

lemma strings_Split_append:
  "strings_Split (a @ sep # b) sep = strings_Split a sep @ strings_Split b sep"
proof (induction a)
  case Nil
  then show ?case by simp
next
  case (Cons c a)
  obtain x xs where "strings_Split a sep = x # xs"
    by (cases "strings_Split a sep") auto
  with Cons show ?case by simp
qed

lemma strings_Split_plain: "sep \<notin> set c \<Longrightarrow> strings_Split c sep = [c]"
  by (induction c) auto

lemma strings_Split_Join:
  assumes "segs \<noteq> []" "\<forall>seg \<in> set segs. sep \<notin> set seg"
  shows "strings_Split (strings_Join segs [sep]) sep = segs"
  using assms
proof (induction segs "[sep]" rule: strings_Join.induct)
  case 1
  then show ?case by simp
next
  case (2 x)
  then show ?case by (simp add: strings_Split_plain)
next
  case (3 x y ys)
  then show ?case
    by (simp add: strings_Split_append strings_Split_plain)
qed

lemma Sprintf3_Split:
  "strings_Split (Sprintf3 a b c) CHR ''/'' =
     strings_Split a CHR ''/'' @ strings_Split b CHR ''/'' @ strings_Split c CHR ''/''"
  by (simp add: Sprintf3_def strings_Split_append)

lemma Sprintf3_not_Nil [simp]: "Sprintf3 a b c \<noteq> []"
  by (simp add: Sprintf3_def)

text \<open>A name that path resolution treats as a name: not empty, not a dot name, no slash.\<close>

definition plain_name :: "string \<Rightarrow> bool" where
  "plain_name c \<longleftrightarrow> c \<noteq> [] \<and> c \<noteq> ''.'' \<and> c \<noteq> ''..'' \<and> CHR ''/'' \<notin> set c"

lemma hex_plain_name:
  assumes "set c \<subseteq> set hextable" "3 \<le> length c"
  shows "plain_name c"
proof -
  have "CHR ''/'' \<notin> set hextable"
    by (simp add: hextable_def)
  with assms(1) have "CHR ''/'' \<notin> set c"
    by blast
  moreover have "c \<noteq> []" "c \<noteq> ''.''" "c \<noteq> ''..''"
    using assms(2) by auto
  ultimately show ?thesis
    by (simp add: plain_name_def)
qed

lemma spec_segments_set: "seg \<in> set (spec_segments n s) \<Longrightarrow> set seg \<subseteq> set s"
proof (induction n s rule: spec_segments.induct)
  case (1 n s)
  from "1.prems" have "\<not> (n = 0 \<or> length s < n)"
    by (subst (asm) spec_segments.simps) (auto split: if_splits)
  moreover from this "1.prems" have "seg = take n s \<or> seg \<in> set (spec_segments n (drop n s))"
    by (subst (asm) spec_segments.simps) auto
  ultimately show ?case
    using "1.IH" by (auto dest: in_set_takeD in_set_dropD)
qed

text \<open>The components of a content-addressed path, for a digest \<open>d\<close> of 20 bytes.\<close>

lemma CAS_segments:
  assumes "length d = 20"
  shows "\<exists>rest. spec_segments 5 (hex_EncodeToString d) = take 5 (hex_EncodeToString d) # rest"
  using assms by (subst spec_segments.simps) simp

lemma CAS_segments_plain:
  assumes "seg \<in> set (spec_segments 5 (hex_EncodeToString d))"
  shows "plain_name seg"
proof (rule hex_plain_name)
  show "set seg \<subseteq> set hextable"
    using spec_segments_set [OF assms] hex_EncodeToString_digits by blast
  show "3 \<le> length seg"
    using spec_segments_lengths [OF assms] by simp
qed

lemma CAS_Filename_plain:
  assumes "length d = 20"
  shows "plain_name (hex_EncodeToString d)"
proof (rule hex_plain_name)
  show "set (hex_EncodeToString d) \<subseteq> set hextable"
    using hex_EncodeToString_digits by blast
  show "3 \<le> length (hex_EncodeToString d)"
    using assms by simp
qed

lemma CAS_PathName_Split:
  assumes "length (sha1_Sum K) = 20"
  shows "strings_Split (PathName (CASPathTransformFunc sha1_Sum K)) CHR ''/''
           = spec_segments 5 (hex_EncodeToString (sha1_Sum K))"
proof -
  let ?segs = "spec_segments 5 (hex_EncodeToString (sha1_Sum K))"
  have "?segs \<noteq> []"
    using CAS_segments [OF assms] by auto
  moreover have "\<forall>seg \<in> set ?segs. CHR ''/'' \<notin> set seg"
  proof
    fix seg assume "seg \<in> set ?segs"
    then have "plain_name seg" by (rule CAS_segments_plain)
    then show "CHR ''/'' \<notin> set seg" by (simp add: plain_name_def)
  qed
  ultimately show ?thesis
    using strings_Split_Join [of ?segs "CHR ''/''"]
    by (simp add: CASPathTransformFunc_eq)
qed

lemma CAS_FullPath_Split:
  assumes "length (sha1_Sum K) = 20"
  shows "strings_Split (FullPath (CASPathTransformFunc sha1_Sum K)) CHR ''/''
           = spec_segments 5 (hex_EncodeToString (sha1_Sum K)) @ [hex_EncodeToString (sha1_Sum K)]"
proof -
  have "CHR ''/'' \<notin> set (hex_EncodeToString (sha1_Sum K))"
    using CAS_Filename_plain [OF assms] by (simp add: plain_name_def)
  then show ?thesis
    using CAS_PathName_Split [of sha1_Sum K] assms
    by (simp add: FullPath_def strings_Split_append strings_Split_plain CASPathTransformFunc_eq)
qed

lemma CAS_FirstPathName:
  assumes "length (sha1_Sum K) = 20"
  shows "FirstPathName (CASPathTransformFunc sha1_Sum K) = take 5 (hex_EncodeToString (sha1_Sum K))"
  using CAS_segments [OF assms] CAS_PathName_Split [of sha1_Sum K] assms
  by (auto simp: FirstPathName_def)

section \<open>Path resolution\<close>

lemma walk_append:
  "walk fs cur (xs @ ys) = (case walk fs cur xs of Inl e \<Rightarrow> Inl e | Inr c \<Rightarrow> walk fs c ys)"
  by (induction xs arbitrary: cur) (auto split: sum.splits)


lemma walk_from_absent: "fs cur = None \<Longrightarrow> cs \<noteq> [] \<Longrightarrow> walk fs cur cs = Inl ENOENT"
  by (cases cs) (simp_all add: walk_step_def)

text \<open>Removing entries can only turn a resolution into \<^verbatim>\<open>ENOENT\<close>.\<close>

lemma walk_step_map_le:
  "fs' \<subseteq>\<^sub>m fs \<Longrightarrow> walk_step fs' cur c = walk_step fs cur c \<or> walk_step fs' cur c = Inl ENOENT"
proof (cases "fs' cur")
  case None
  then show ?thesis by (simp add: walk_step_def)
next
  case (Some e)
  assume "fs' \<subseteq>\<^sub>m fs"
  with Some have "fs cur = Some e"
    by (metis domI map_le_def)
  with Some show ?thesis by (simp add: walk_step_def)
qed

lemma walk_map_le:
  "fs' \<subseteq>\<^sub>m fs \<Longrightarrow> walk fs' cur cs = walk fs cur cs \<or> walk fs' cur cs = Inl ENOENT"
proof (induction cs arbitrary: cur)
  case Nil
  then show ?case by simp
next
  case (Cons c cs)
  from walk_step_map_le [OF Cons.prems, of cur c] show ?case
  proof
    assume "walk_step fs' cur c = walk_step fs cur c"
    then show ?thesis
      using Cons.IH [OF Cons.prems] by (auto split: sum.splits)
  next
    assume "walk_step fs' cur c = Inl ENOENT"
    then show ?thesis by simp
  qed
qed

lemma remove_subtree_map_le: "(\<lambda>q. if prefix p q then None else fs q) \<subseteq>\<^sub>m fs"
  by (auto simp: map_le_def dom_def)

section \<open>What \<^verbatim>\<open>Has\<close> reports\<close>

text \<open>
  C10. \<^verbatim>\<open>Has\<close> is false exactly when \<^verbatim>\<open>os.Stat\<close> of the key's path fails with the
  not-exist error. On every other failure of \<^verbatim>\<open>os.Stat\<close> it is true, although \<^verbatim>\<open>Read\<close> of
  the same key fails with that error.
\<close>

theorem Has_false_iff_ErrNotExist:
  "(\<not> Has s fs id' key \<longleftrightarrow>
      os_Stat fs (Sprintf3 (Root s) id' (FullPath (PathTransformFunc s key))) = Inl ENOENT)
   \<and> (\<forall>e. e \<noteq> ENOENT \<longrightarrow>
          os_Stat fs (Sprintf3 (Root s) id' (FullPath (PathTransformFunc s key))) = Inl e \<longrightarrow>
          Has s fs id' key \<and> Read s fs id' key = Inl e)"
  by (auto simp: Has_def is_ErrNotExist_def Read_def readStream_def os_Stat_def os_Open_def
      Let_def split: sum.splits)

text \<open>A store rooted at \<open>r\<close>, on a disk where \<open>r\<close> is a regular file.\<close>

definition example_store :: Store where
  "example_store =
     NewStore \<lparr>opts_Root = ''r'', opts_PathTransformFunc = Some (CASPathTransformFunc example_sum)\<rparr>"

definition root_is_file_fs :: filesys where
  "root_is_file_fs = [[] \<mapsto> DirE, [''r''] \<mapsto> FileE []]"

theorem Has_false_iff_ErrNotExist_witness:
  "ENOTDIR \<noteq> ENOENT
   \<and> os_Stat root_is_file_fs
        (Sprintf3 (Root example_store) ''n'' (FullPath (PathTransformFunc example_store ''k'')))
       = Inl ENOTDIR
   \<and> Has example_store root_is_file_fs ''n'' ''k''
   \<and> Read example_store root_is_file_fs ''n'' ''k'' = Inl ENOTDIR"
proof -
  have st: "os_Stat root_is_file_fs
        (Sprintf3 (Root example_store) ''n'' (FullPath (PathTransformFunc example_store ''k'')))
       = Inl ENOTDIR"
    by code_simp
  show ?thesis
    using Has_false_iff_ErrNotExist [of example_store root_is_file_fs "''n''" "''k''"] st
    by auto
qed

section \<open>What \<^verbatim>\<open>Delete\<close> removes\<close>

lemma os_RemoveAll_gone:
  assumes "os_RemoveAll fs path = (fs', None)" "path \<noteq> []" "tl_comps \<noteq> []"
  shows "walk fs' [] (strings_Split path CHR ''/'' @ tl_comps) = Inl ENOENT"
proof -
  let ?comps = "strings_Split path CHR ''/''"
  have nd: "\<not> endsWithDot path"
    using assms(1,2) by (auto simp: os_RemoveAll_def)
  show ?thesis
  proof (cases "walk fs [] ?comps")
    case (Inl e)
    with assms(1,2) nd have "fs' = fs" "e = ENOENT"
      by (auto simp: os_RemoveAll_def Let_def split: if_splits)
    with Inl show ?thesis
      by (simp add: walk_append)
  next
    case (Inr p)
    with assms(1,2) nd have fs': "fs' = (\<lambda>q. if prefix p q then None else fs q)"
      by (auto simp: os_RemoveAll_def Let_def split: if_splits)
    then have "fs' \<subseteq>\<^sub>m fs"
      by (simp add: remove_subtree_map_le)
    from walk_map_le [OF this, of "[]" ?comps]
    show ?thesis
    proof
      assume "walk fs' [] ?comps = walk fs [] ?comps"
      moreover have "fs' p = None"
        by (simp add: fs')
      ultimately show ?thesis
        using Inr assms(3) by (simp add: walk_append walk_from_absent)
    next
      assume "walk fs' [] ?comps = Inl ENOENT"
      then show ?thesis
        by (simp add: walk_append)
    qed
  qed
qed

lemma os_RemoveAll_gone_self:
  assumes "os_RemoveAll fs path = (fs', None)" "path \<noteq> []"
  shows "namei fs' path = Inl ENOENT"
proof -
  let ?comps = "strings_Split path CHR ''/''"
  have nd: "\<not> endsWithDot path"
    using assms by (auto simp: os_RemoveAll_def)
  show ?thesis
  proof (cases "walk fs [] ?comps")
    case (Inl e)
    with assms nd have "fs' = fs" "e = ENOENT"
      by (auto simp: os_RemoveAll_def Let_def split: if_splits)
    with Inl assms(2) show ?thesis
      by (simp add: namei_def)
  next
    case (Inr p)
    with assms nd have fs': "fs' = (\<lambda>q. if prefix p q then None else fs q)"
      by (auto simp: os_RemoveAll_def Let_def split: if_splits)
    then have "fs' \<subseteq>\<^sub>m fs"
      by (simp add: remove_subtree_map_le)
    from walk_map_le [OF this, of "[]" ?comps]
    show ?thesis
    proof
      assume "walk fs' [] ?comps = walk fs [] ?comps"
      moreover have "fs' p = None"
        by (simp add: fs')
      ultimately show ?thesis
        using Inr assms(2) by (simp add: namei_def)
    next
      assume "walk fs' [] ?comps = Inl ENOENT"
      then show ?thesis
        using assms(2) by (simp add: namei_def)
    qed
  qed
qed

text \<open>
  C9. With the content-addressed paths, let the hex digests of \<open>K1\<close> and \<open>K2\<close> begin
  with the same five characters. When \<^verbatim>\<open>Delete\<close> of \<open>K1\<close> in a namespace returns no error,
  \<^verbatim>\<open>Has\<close> of \<open>K2\<close> in that namespace is false afterwards: the directory named by the first
  segment of the digest no longer exists, and \<open>K2\<close>'s file was below it.
\<close>

theorem Delete_removes_shared_shard:
  assumes "PathTransformFunc s = CASPathTransformFunc sha1_Sum"
    and "length (sha1_Sum K1) = 20" and "length (sha1_Sum K2) = 20"
    and "take 5 (hex_EncodeToString (sha1_Sum K1)) = take 5 (hex_EncodeToString (sha1_Sum K2))"
    and "Delete s fs id' K1 = (fs', None)"
  shows "\<not> Has s fs' id' K2
    \<and> os_Stat fs' (Sprintf3 (Root s) id' (FullPath (CASPathTransformFunc sha1_Sum K2))) = Inl ENOENT
    \<and> os_Stat fs' (Sprintf3 (Root s) id' (take 5 (hex_EncodeToString (sha1_Sum K2)))) = Inl ENOENT"
proof -
  let ?h1 = "hex_EncodeToString (sha1_Sum K1)" and ?h2 = "hex_EncodeToString (sha1_Sum K2)"
  let ?D = "Sprintf3 (Root s) id' (take 5 ?h1)"
  let ?P = "Sprintf3 (Root s) id' (FullPath (CASPathTransformFunc sha1_Sum K2))"
  obtain rest where rest: "spec_segments 5 ?h2 = take 5 ?h1 # rest"
    using CAS_segments [OF assms(3)] assms(4) by auto
  then have "take 5 ?h1 \<in> set (spec_segments 5 ?h2)"
    by simp
  then have "plain_name (take 5 ?h1)"
    by (rule CAS_segments_plain)
  then have seg: "strings_Split (take 5 ?h1) CHR ''/'' = [take 5 ?h1]"
    by (simp add: plain_name_def strings_Split_plain)
  have rm: "os_RemoveAll fs ?D = (fs', None)"
    using assms(1,2,5) CAS_FirstPathName [of sha1_Sum K1] by (simp add: Delete_def Let_def)
  have "strings_Split ?P CHR ''/'' = strings_Split ?D CHR ''/'' @ (rest @ [?h2])"
    using CAS_FullPath_Split [of sha1_Sum K2] assms(3) rest seg
    by (simp add: Sprintf3_Split)
  moreover have "walk fs' [] (strings_Split ?D CHR ''/'' @ (rest @ [?h2])) = Inl ENOENT"
    by (rule os_RemoveAll_gone [OF rm]) simp_all
  ultimately have "os_Stat fs' ?P = Inl ENOENT"
    by (simp add: os_Stat_def namei_def)
  moreover have "os_Stat fs' ?D = Inl ENOENT"
    using os_RemoveAll_gone_self [OF rm] by (simp add: os_Stat_def)
  ultimately show ?thesis
    using assms(1,4) by (simp add: Has_def is_ErrNotExist_def Let_def)
qed

text \<open>Two keys stored in namespace \<open>n\<close> whose example digests differ in the last byte only.\<close>

definition two_keys_fs :: filesys where
  "two_keys_fs =
     fst (Write example_store (fst (Write example_store empty_fs ''n'' ''a'' [1, 2, 3]))
            ''n'' ''bb'' [4, 5])"

theorem Delete_removes_shared_shard_witness:
  "''a'' \<noteq> ''bb''
   \<and> hex_EncodeToString (example_sum ''a'') \<noteq> hex_EncodeToString (example_sum ''bb'')
   \<and> Has example_store two_keys_fs ''n'' ''bb''
   \<and> os_Stat two_keys_fs (Sprintf3 (Root example_store) ''n''
                            (take 5 (hex_EncodeToString (example_sum ''bb'')))) = Inr DirE
   \<and> snd (Delete example_store two_keys_fs ''n'' ''a'') = None
   \<and> \<not> Has example_store (fst (Delete example_store two_keys_fs ''n'' ''a'')) ''n'' ''bb''"
proof -
  have pt: "PathTransformFunc example_store = CASPathTransformFunc example_sum"
    by (simp add: example_store_def NewStore_def)
  have l1: "length (example_sum ''a'') = 20" and l2: "length (example_sum ''bb'') = 20"
    by (simp_all add: example_sum_def)
  have pre: "take 5 (hex_EncodeToString (example_sum ''a''))
               = take 5 (hex_EncodeToString (example_sum ''bb''))"
    by code_simp
  have ne: "hex_EncodeToString (example_sum ''a'') \<noteq> hex_EncodeToString (example_sum ''bb'')"
    by code_simp
  have before: "Has example_store two_keys_fs ''n'' ''bb''"
    by code_simp
  have dir: "os_Stat two_keys_fs (Sprintf3 (Root example_store) ''n''
                            (take 5 (hex_EncodeToString (example_sum ''bb'')))) = Inr DirE"
    by code_simp
  have ok: "snd (Delete example_store two_keys_fs ''n'' ''a'') = None"
    by code_simp
  then have del: "Delete example_store two_keys_fs ''n'' ''a''
                    = (fst (Delete example_store two_keys_fs ''n'' ''a''), None)"
    by (metis prod.collapse)
  show ?thesis
    using Delete_removes_shared_shard [of example_store example_sum "''a''" "''bb''", OF pt l1 l2 pre del]
      ne before dir ok
    by simp
qed

section \<open>Resolution of plain paths in a well-formed file system\<close>


lemma wf_fs_parent: "wf_fs fs \<Longrightarrow> fs (q @ [c]) \<noteq> None \<Longrightarrow> fs q = Some DirE"
  unfolding wf_fs_def by blast


lemma wf_fs_prefix:
  "wf_fs fs \<Longrightarrow> fs q \<noteq> None \<Longrightarrow> strict_prefix p q \<Longrightarrow> fs p = Some DirE"
proof (induction q rule: rev_induct)
  case Nil
  then show ?case by simp
next
  case (snoc c q)
  have par: "fs q = Some DirE"
    using snoc.prems(1,2) by (rule wf_fs_parent)
  from snoc.prems(3) have "prefix p q"
    by (metis prefix_snoc strict_prefix_def)
  then show ?case
  proof (cases "p = q")
    case True
    with par show ?thesis by simp
  next
    case False
    with \<open>prefix p q\<close> have "strict_prefix p q"
      by (simp add: strict_prefix_def)
    with snoc.IH snoc.prems(1) par show ?thesis by simp
  qed
qed

lemma wf_fs_below_absent:
  "wf_fs fs \<Longrightarrow> fs p \<noteq> Some DirE \<Longrightarrow> strict_prefix p q \<Longrightarrow> fs q = None"
  using wf_fs_prefix by blast








section \<open>The file-system calls keep the file system well formed\<close>







section \<open>The effect of the store's operations on the file system\<close>
















section \<open>Namespaces do not see each other\<close>













section \<open>Connections and the transport\<close>

text \<open>
  What the code takes from elsewhere: the two frame marker bytes (the constants
  \<^verbatim>\<open>p2p.IncomingMessage\<close> and \<^verbatim>\<open>p2p.IncomingStream\<close>, whose declaration is in a file of the
  package that is not at hand) and the Go library's \<^verbatim>\<open>md5.Sum\<close>, \<^verbatim>\<open>gob\<close> encoder and AES
  counter mode. They are the fields of this record, which the functions below take as
  their first argument.
\<close>

datatype Payload =
    MessageStoreFile string string int
  | MessageGetFile string string

datatype Message = Message Payload

record extern =
  IncomingMessage :: byte
  IncomingStream :: byte
  md5_Sum :: "string \<Rightarrow> byte list"
  gob_Encode :: "Message \<Rightarrow> error + byte list"
  aes_ctr :: ctr_mode

text \<open>
  The sending side of a \<^verbatim>\<open>net.Conn\<close>: the bytes written so far, and for the next calls
  of \<^verbatim>\<open>Write\<close> whether the call fails (\<open>True\<close>); once the list is used up, writes
  succeed. A failed write sends nothing.
\<close>

record net_Conn =
  written :: "byte list"
  faults :: "bool list"




text \<open>
  The transport: its listen address, the bound listener, and the connections handed to
  \<^verbatim>\<open>handleConn\<close> with their \<open>outbound\<close> flag. The network says which addresses cannot be
  bound and which remote addresses accept a connection.
\<close>

record TCPTransport =
  ListenAddr :: string
  listener :: "string option"
  conns :: "(string \<times> bool) list"

record network =
  unavailable :: "string list"
  accepting :: "string list"

definition NewTCPTransport :: "string \<Rightarrow> TCPTransport" where
  "NewTCPTransport addr = \<lparr>ListenAddr = addr, listener = None, conns = []\<rparr>"

definition TCPTransport_Dial ::
  "network \<Rightarrow> TCPTransport \<Rightarrow> string \<Rightarrow> TCPTransport \<times> error option" where
  "TCPTransport_Dial net t addr =
     (if addr \<in> set (accepting net) then (t\<lparr>conns := conns t @ [(addr, True)]\<rparr>, None)
      else (t, Some ErrDial))"

definition ListenAndAccept :: "network \<Rightarrow> TCPTransport \<Rightarrow> TCPTransport \<times> error option" where
  "ListenAndAccept net t =
     (if ListenAddr t \<in> set (unavailable net) then (t, Some ErrListen)
      else (t\<lparr>listener := Some (ListenAddr t)\<rparr>, None))"

section \<open>server.go and main.go\<close>


definition read_random :: "nat \<Rightarrow> byte list \<Rightarrow> byte list" where
  "read_random n rnd = take n rnd @ replicate (n - length rnd) 0"

definition generateID :: "byte list \<Rightarrow> string" where
  "generateID rnd = hex_EncodeToString (read_random 32 rnd)"

definition newEncryptionKey :: "byte list \<Rightarrow> byte list" where
  "newEncryptionKey rnd = read_random 32 rnd"

text \<open>
  The file server with the fields of the embedded \<^verbatim>\<open>FileServerOpts\<close>. The map of peers is
  a list of pairs in the order in which a \<^verbatim>\<open>range\<close> loop visits it.
\<close>

record FileServer =
  ID :: string
  EncKey :: "byte list"
  StorageRoot :: string
  Transport :: TCPTransport
  BootstrapNodes :: "string list"
  peers :: "(string \<times> net_Conn) list"
  store :: Store

record FileServerOpts =
  o_ID :: string
  o_EncKey :: "byte list"
  o_StorageRoot :: string
  o_PathTransformFunc :: "(string \<Rightarrow> PathKey) option"
  o_Transport :: TCPTransport
  o_BootstrapNodes :: "string list"

definition NewFileServer :: "FileServerOpts \<Rightarrow> byte list \<Rightarrow> FileServer" where
  "NewFileServer opts rnd =
     (let storeOpts = \<lparr>opts_Root = o_StorageRoot opts,
                       opts_PathTransformFunc = o_PathTransformFunc opts\<rparr>
      in \<lparr>ID = (if length (o_ID opts) = 0 then generateID rnd else o_ID opts),
          EncKey = o_EncKey opts,
          StorageRoot = o_StorageRoot opts,
          Transport = o_Transport opts,
          BootstrapNodes = o_BootstrapNodes opts,
          peers = [],
          store = NewStore storeOpts\<rparr>)"

text \<open>\<^verbatim>\<open>makeServer\<close> of main.go; \<open>rnd1\<close> and \<open>rnd2\<close> are the random bytes for key and ID.\<close>

definition makeServer ::
  "(string \<Rightarrow> byte list) \<Rightarrow> byte list \<Rightarrow> byte list \<Rightarrow> string \<Rightarrow> string list \<Rightarrow> FileServer" where
  "makeServer sha1_Sum rnd1 rnd2 listenAddr nodes =
     (let tcpTransport = NewTCPTransport listenAddr;
          fileServerOpts =
            \<lparr>o_ID = [],
             o_EncKey = newEncryptionKey rnd1,
             o_StorageRoot = listenAddr @ ''_network'',
             o_PathTransformFunc = Some (CASPathTransformFunc sha1_Sum),
             o_Transport = tcpTransport,
             o_BootstrapNodes = nodes\<rparr>
      in NewFileServer fileServerOpts rnd2)"

text \<open>\<^verbatim>\<open>FileServer.Start\<close>.\<close>

definition FileServer_Start :: "network \<Rightarrow> FileServer \<Rightarrow> FileServer \<times> error option" where
  "FileServer_Start net fs =
     (case ListenAndAccept net (Transport fs) of (t, err) \<Rightarrow> (fs\<lparr>Transport := t\<rparr>, err))"

text \<open>\<^verbatim>\<open>FileServer.OnPeer\<close>: the map assignment replaces an entry for the same address.\<close>

definition OnPeer :: "FileServer \<Rightarrow> string \<Rightarrow> net_Conn \<Rightarrow> FileServer \<times> error option" where
  "OnPeer s addr p =
     (s\<lparr>peers := (if addr \<in> fst ` set (peers s)
                    then map (\<lambda>(a, c). if a = addr then (a, p) else (a, c)) (peers s)
                    else peers s @ [(addr, p)])\<rparr>, None)"




section \<open>What \<^verbatim>\<open>Store\<close> sends to the peers\<close>

definition send_all :: "byte list \<Rightarrow> (string \<times> net_Conn) list \<Rightarrow> (string \<times> net_Conn) list" where
  "send_all b ps = map (\<lambda>(a, c). (a, c\<lparr>written := written c @ b\<rparr>)) ps"

definition fault_free :: "(string \<times> net_Conn) list \<Rightarrow> bool" where
  "fault_free ps \<longleftrightarrow> (\<forall>p \<in> set ps. faults (snd p) = [])"

lemma send_all_Nil [simp]: "send_all [] ps = ps"
  by (induction ps) (auto simp: send_all_def)


lemma fault_free_send_all [simp]: "fault_free (send_all b ps) = fault_free ps"
  by (induction ps) (auto simp: send_all_def fault_free_def)








text \<open>
  Values for running the server: marker bytes 1 and 2, a digest of 15 zero bytes and the
  length of the key, and an encoder that writes a tag, the strings and the size.
\<close>

fun example_gob :: "Message \<Rightarrow> byte list" where
  "example_gob (Message (MessageStoreFile i k n)) =
     83 # map of_char i @ [0] @ map of_char k @ [0, of_int n]"
| "example_gob (Message (MessageGetFile i k)) =
     71 # map of_char i @ [0] @ map of_char k @ [0]"

definition example_extern :: extern where
  "example_extern =
     \<lparr>IncomingMessage = 1, IncomingStream = 2,
      md5_Sum = (\<lambda>key. replicate 15 0 @ [of_nat (length key)]),
      gob_Encode = (\<lambda>m. Inr (example_gob m)),
      aes_ctr = example_ctr\<rparr>"










section \<open>Errors of the marker sends in \<^verbatim>\<open>Store\<close>\<close>


section \<open>Starting a node\<close>

lemma FileServer_Start_frame:
  "conns (Transport (fst (FileServer_Start net s))) = conns (Transport s)
   \<and> peers (fst (FileServer_Start net s)) = peers s
   \<and> BootstrapNodes (fst (FileServer_Start net s)) = BootstrapNodes s"
  by (simp add: FileServer_Start_def ListenAndAccept_def split: prod.splits)

text \<open>
  C8. The claim does not hold of the code: \<^verbatim>\<open>Start\<close> only calls \<^verbatim>\<open>ListenAndAccept\<close>. The
  third server of main.go, made with the bootstrap nodes \<open>:3000\<close> and \<open>:7000\<close>, both
  accepting connections, listens after \<^verbatim>\<open>Start\<close> and has no connection and no peer,
  although \<^verbatim>\<open>Dial\<close> of either address would have succeeded.
\<close>

theorem Start_does_not_dial_bootstrap_nodes:
  "BootstrapNodes (makeServer example_sum [] [] '':5000'' ['':3000'', '':7000''])
     = ['':3000'', '':7000'']
   \<and> snd (FileServer_Start \<lparr>unavailable = [], accepting = ['':3000'', '':7000'']\<rparr>
            (makeServer example_sum [] [] '':5000'' ['':3000'', '':7000''])) = None
   \<and> listener (Transport (fst (FileServer_Start
            \<lparr>unavailable = [], accepting = ['':3000'', '':7000'']\<rparr>
            (makeServer example_sum [] [] '':5000'' ['':3000'', '':7000''])))) = Some '':5000''
   \<and> conns (Transport (fst (FileServer_Start
            \<lparr>unavailable = [], accepting = ['':3000'', '':7000'']\<rparr>
            (makeServer example_sum [] [] '':5000'' ['':3000'', '':7000''])))) = []
   \<and> peers (fst (FileServer_Start \<lparr>unavailable = [], accepting = ['':3000'', '':7000'']\<rparr>
            (makeServer example_sum [] [] '':5000'' ['':3000'', '':7000'']))) = []
   \<and> snd (TCPTransport_Dial \<lparr>unavailable = [], accepting = ['':3000'', '':7000'']\<rparr>
            (NewTCPTransport '':5000'') '':3000'') = None"
  by (simp add: makeServer_def NewFileServer_def NewTCPTransport_def FileServer_Start_def
      ListenAndAccept_def TCPTransport_Dial_def Let_def)

section \<open>p2p: decoding frames and the read loop of a connection\<close>

text \<open>
  Modelled from the spec: the declaration of the type \<^verbatim>\<open>RPC\<close> is in a file of the package
  that is not at hand. The spec describes it as the sender's identity and the raw payload
  bytes; the code also sets and reads its \<^verbatim>\<open>Stream\<close> flag.
\<close>

record RPC =
  From :: string
  Payload :: "byte list"
  Stream :: bool

text \<open>
  \<^verbatim>\<open>DefaultDecoder.Decode\<close>. The reader is a connection whose peer has sent \<open>r\<close> and then
  closed it: a read returns the bytes that are there, up to the size of the buffer, and
  fails with \<^verbatim>\<open>io.EOF\<close> when none are left. The result is what is left to read, the
  message and the error.
\<close>

definition Decode :: "extern \<Rightarrow> byte list \<Rightarrow> RPC \<Rightarrow> byte list \<times> RPC \<times> error option" where
  "Decode x r msg =
     (case Reader_Read 1 r of
        None \<Rightarrow> (r, msg, None)
      | Some (got, r1) \<Rightarrow>
          (let peekBuf = got @ replicate (1 - length got) 0;
               stream = (peekBuf ! 0 = IncomingStream x)
           in if stream then (r1, msg\<lparr>Stream := True\<rparr>, None)
              else (case Reader_Read 1028 r1 of
                      None \<Rightarrow> (r1, msg, Some EOF)
                    | Some (buf, r2) \<Rightarrow> (r2, msg\<lparr>Payload := buf\<rparr>, None))))"

text \<open>
  One connection of \<^verbatim>\<open>handleConn\<close> after handshake and \<^verbatim>\<open>OnPeer\<close>, together with the
  goroutines that touch it, as a state machine. The state is what is left to read from
  the connection, the counter of the peer's \<^verbatim>\<open>WaitGroup\<close>, the place of the read loop,
  and the content of the channel \<^verbatim>\<open>rpcch\<close>, whose capacity is 1024.
\<close>

datatype loop_pc =
    AtDecode
  | AtSend RPC
  | AtWait
  | Returned error
  | Crashed

record conn_state =
  input :: "byte list"
  wg :: int
  pc :: loop_pc
  rpcch :: "RPC list"

text \<open>
  The steps. \<open>LoopStep\<close> is the next step of the read loop: at the top it decodes a
  frame, and returns (closing the connection) on an error, does \<^verbatim>\<open>wg.Add(1)\<close> and goes
  to \<^verbatim>\<open>wg.Wait()\<close> on a stream marker, and otherwise goes to the channel send; the send
  needs room in the channel, and \<^verbatim>\<open>wg.Wait()\<close> needs the counter to be zero. A step that
  cannot be taken now (the goroutine is blocked or gone) is \<open>None\<close>. \<open>ConsumerRead n\<close> is
  another goroutine reading \<open>n\<close> bytes that have arrived from the connection,
  \<open>CloseStream\<close> is \<^verbatim>\<open>TCPPeer.CloseStream\<close>, that is \<^verbatim>\<open>wg.Done()\<close>, which panics when the
  counter would become negative, and \<open>Consume\<close> takes a message from the channel.
\<close>

datatype action = LoopStep | ConsumerRead nat | CloseStream | Consume

definition step :: "extern \<Rightarrow> string \<Rightarrow> action \<Rightarrow> conn_state \<Rightarrow> conn_state option" where
  "step x addr a s =
     (if pc s = Crashed then None
      else case a of
        LoopStep \<Rightarrow>
          (case pc s of
             AtDecode \<Rightarrow>
               (case Decode x (input s) \<lparr>From = [], Payload = [], Stream = False\<rparr> of
                  (r, rpc, Some err) \<Rightarrow> Some (s\<lparr>input := r, pc := Returned err\<rparr>)
                | (r, rpc, None) \<Rightarrow>
                    (let rpc = rpc\<lparr>From := addr\<rparr>
                     in if Stream rpc then Some (s\<lparr>input := r, wg := wg s + 1, pc := AtWait\<rparr>)
                        else Some (s\<lparr>input := r, pc := AtSend rpc\<rparr>)))
           | AtSend rpc \<Rightarrow>
               if length (rpcch s) < 1024 then Some (s\<lparr>rpcch := rpcch s @ [rpc], pc := AtDecode\<rparr>)
               else None
           | AtWait \<Rightarrow> if wg s = 0 then Some (s\<lparr>pc := AtDecode\<rparr>) else None
           | Returned err \<Rightarrow> None
           | Crashed \<Rightarrow> None)
      | ConsumerRead n \<Rightarrow>
          if n \<le> length (input s) then Some (s\<lparr>input := drop n (input s)\<rparr>) else None
      | CloseStream \<Rightarrow>
          if wg s - 1 < 0 then Some (s\<lparr>pc := Crashed\<rparr>) else Some (s\<lparr>wg := wg s - 1\<rparr>)
      | Consume \<Rightarrow>
          (case rpcch s of [] \<Rightarrow> None | m # ms \<Rightarrow> Some (s\<lparr>rpcch := ms\<rparr>)))"

fun run :: "extern \<Rightarrow> string \<Rightarrow> action list \<Rightarrow> conn_state \<Rightarrow> conn_state option" where
  "run x addr [] s = Some s"
| "run x addr (a # as) s =
     (case step x addr a s of None \<Rightarrow> None | Some s' \<Rightarrow> run x addr as s')"

text \<open>A connection as \<^verbatim>\<open>handleConn\<close> enters its loop: a fresh \<^verbatim>\<open>WaitGroup\<close>.\<close>

definition new_conn :: "byte list \<Rightarrow> RPC list \<Rightarrow> conn_state" where
  "new_conn bytes ch = \<lparr>input = bytes, wg = 0, pc = AtDecode, rpcch = ch\<rparr>"

section \<open>Decode errors and the read loop\<close>

lemma run_append:
  "run x addr (as @ bs) s = (case run x addr as s of None \<Rightarrow> None | Some s' \<Rightarrow> run x addr bs s')"
  by (induction as arbitrary: s) (auto split: option.splits)

lemma Decode_at_EOF: "Decode x [] msg = ([], msg, None)"
  by (simp add: Decode_def Reader_Read_def)

text \<open>
  At the end of the input the loop never returns: whatever the goroutines do, the
  connection is not torn down.
\<close>

lemma step_at_EOF:
  assumes "input s = []" "\<forall>e. pc s \<noteq> Returned e" "step x addr a s = Some s'"
  shows "input s' = [] \<and> (\<forall>e. pc s' \<noteq> Returned e)"
  using assms
  by (cases a; cases "pc s")
     (auto simp: step_def Decode_at_EOF Let_def split: if_splits list.splits)

lemma loop_never_returns_at_EOF:
  "input s = [] \<Longrightarrow> \<forall>e. pc s \<noteq> Returned e \<Longrightarrow> run x addr acts s = Some s' \<Longrightarrow>
   input s' = [] \<and> (\<forall>e. pc s' \<noteq> Returned e)"
proof (induction acts arbitrary: s)
  case Nil
  then show ?case by simp
next
  case (Cons a acts)
  from Cons.prems(3) obtain s1 where s1: "step x addr a s = Some s1" "run x addr acts s1 = Some s'"
    by (auto split: option.splits)
  from step_at_EOF [OF Cons.prems(1,2) s1(1)] Cons.IH [OF _ _ s1(2)] show ?case
    by blast
qed

text \<open>
  C6. The claim does not hold of the code: when the read of the marker byte fails,
  \<^verbatim>\<open>Decode\<close> returns \<^verbatim>\<open>nil\<close> and leaves the message as it was. On a connection that the
  peer has closed, each round of the loop decodes "successfully" and pushes an empty RPC;
  after three rounds the loop is at its top again with three empty RPCs in the channel.
  A failure of the second read does end the loop.
\<close>

theorem Decode_swallows_marker_read_error:
  "Decode example_extern [] \<lparr>From = [], Payload = [], Stream = False\<rparr>
     = ([], \<lparr>From = [], Payload = [], Stream = False\<rparr>, None)
   \<and> run example_extern '':3000''
         [LoopStep, LoopStep, LoopStep, LoopStep, LoopStep, LoopStep] (new_conn [] [])
       = Some \<lparr>input = [], wg = 0, pc = AtDecode,
               rpcch = [\<lparr>From = '':3000'', Payload = [], Stream = False\<rparr>,
                        \<lparr>From = '':3000'', Payload = [], Stream = False\<rparr>,
                        \<lparr>From = '':3000'', Payload = [], Stream = False\<rparr>]\<rparr>
   \<and> run example_extern '':3000'' [LoopStep] (new_conn [1] [])
       = Some \<lparr>input = [], wg = 0, pc = Returned EOF, rpcch = []\<rparr>"
  by (simp add: Decode_def Reader_Read_def step_def new_conn_def example_extern_def Let_def)

section \<open>The gate of a stream\<close>

lemma step_gate:
  assumes "pc s = AtWait" "0 < wg s" "a \<noteq> CloseStream" "step x addr a s = Some s'"
  shows "pc s' = AtWait \<and> wg s' = wg s"
  using assms by (cases a) (auto simp: step_def split: if_splits list.splits)

lemma run_gate:
  "pc s = AtWait \<Longrightarrow> 0 < wg s \<Longrightarrow> CloseStream \<notin> set acts \<Longrightarrow> run x addr acts s = Some s' \<Longrightarrow>
   pc s' = AtWait \<and> wg s' = wg s"
proof (induction acts arbitrary: s)
  case Nil
  then show ?case by simp
next
  case (Cons a acts)
  from Cons.prems(4) obtain s1 where s1: "step x addr a s = Some s1" "run x addr acts s1 = Some s'"
    by (auto split: option.splits)
  have "a \<noteq> CloseStream"
    using Cons.prems(3) by auto
  from step_gate [OF Cons.prems(1,2) this s1(1)] have "pc s1 = AtWait" "wg s1 = wg s"
    by auto
  with Cons.IH [OF _ _ _ s1(2)] Cons.prems(2,3) show ?case
    by simp
qed

lemma step_marker:
  "step x addr LoopStep (new_conn (IncomingStream x # rest) ch)
     = Some \<lparr>input = rest, wg = 1, pc = AtWait, rpcch = ch\<rparr>"
  by (simp add: step_def new_conn_def Decode_def Reader_Read_def Let_def)

text \<open>
  C5. On a connection whose next byte is the stream marker, the first step of the read
  loop decodes the marker. From then on, in every run of the goroutines without a
  \<^verbatim>\<open>CloseStream\<close>, the loop stays at \<^verbatim>\<open>wg.Wait()\<close> and its next step cannot be taken: it
  decodes nothing. When the marker is followed by the stream bytes and then by a control
  frame (the other marker byte and a payload that fits the decoder's buffer), and the
  consumer reads exactly the stream bytes and calls \<^verbatim>\<open>CloseStream\<close>, the loop resumes and
  its next round decodes that frame and puts its payload on the channel.
\<close>

theorem stream_gate:
  assumes "IncomingMessage x \<noteq> IncomingStream x"
    and "payload \<noteq> []" and "length payload \<le> 1028" and "length ch < 1024"
  shows "(\<forall>acts s'. CloseStream \<notin> set acts \<longrightarrow>
            run x addr (LoopStep # acts) (new_conn (IncomingStream x # rest) ch) = Some s' \<longrightarrow>
            pc s' = AtWait \<and> step x addr LoopStep s' = None)
     \<and> run x addr [LoopStep, ConsumerRead (length stream), CloseStream, LoopStep, LoopStep, LoopStep]
           (new_conn ([IncomingStream x] @ stream @ [IncomingMessage x] @ payload) ch)
         = Some \<lparr>input = [], wg = 0, pc = AtDecode,
                 rpcch = ch @ [\<lparr>From = addr, Payload = payload, Stream = False\<rparr>]\<rparr>"
proof -
  have gate: "pc s' = AtWait \<and> step x addr LoopStep s' = None"
    if "CloseStream \<notin> set acts"
      "run x addr (LoopStep # acts) (new_conn (IncomingStream x # rest) ch) = Some s'"
    for acts s'
  proof -
    let ?s1 = "\<lparr>input = rest, wg = 1, pc = AtWait, rpcch = ch\<rparr>"
    from that(2) have "run x addr acts ?s1 = Some s'"
      by (simp add: step_marker)
    from run_gate [OF _ _ that(1) this] have "pc s' = AtWait" "wg s' = 1"
      by simp_all
    then show ?thesis
      by (simp add: step_def)
  qed
  have rd: "Reader_Read 1028 payload = Some (payload, [])"
    using assms(2,3) by (simp add: Reader_Read_def)
  have dec: "Decode x (IncomingMessage x # payload) \<lparr>From = [], Payload = [], Stream = False\<rparr>
               = ([], \<lparr>From = [], Payload = payload, Stream = False\<rparr>, None)"
    using assms(1) rd by (simp add: Decode_def Reader_Read_def Let_def)
  have "run x addr [LoopStep, ConsumerRead (length stream), CloseStream, LoopStep, LoopStep, LoopStep]
           (new_conn ([IncomingStream x] @ stream @ [IncomingMessage x] @ payload) ch)
         = Some \<lparr>input = [], wg = 0, pc = AtDecode,
                 rpcch = ch @ [\<lparr>From = addr, Payload = payload, Stream = False\<rparr>]\<rparr>"
    using step_marker [of x addr "stream @ [IncomingMessage x] @ payload" ch] assms(4)
    by (simp add: step_def dec Let_def)
  with gate show ?thesis
    by blast
qed

theorem stream_gate_witness:
  "IncomingMessage example_extern \<noteq> IncomingStream example_extern
   \<and> run example_extern '':3000'' [LoopStep, ConsumerRead 1, Consume]
         (new_conn (IncomingStream example_extern # [9, 9, 1, 5, 6])
            [\<lparr>From = '':7000'', Payload = [4], Stream = False\<rparr>])
       = Some \<lparr>input = [9, 1, 5, 6], wg = 1, pc = AtWait, rpcch = []\<rparr>
   \<and> step example_extern '':3000'' LoopStep \<lparr>input = [9, 1, 5, 6], wg = 1, pc = AtWait, rpcch = []\<rparr>
       = None
   \<and> run example_extern '':3000''
         [LoopStep, ConsumerRead (length [9 :: byte, 9]), CloseStream, LoopStep, LoopStep, LoopStep]
         (new_conn ([IncomingStream example_extern] @ [9, 9] @ [IncomingMessage example_extern] @ [5, 6])
            [\<lparr>From = '':7000'', Payload = [4], Stream = False\<rparr>])
       = Some \<lparr>input = [], wg = 0, pc = AtDecode,
               rpcch = [\<lparr>From = '':7000'', Payload = [4], Stream = False\<rparr>]
                         @ [\<lparr>From = '':3000'', Payload = [5, 6], Stream = False\<rparr>]\<rparr>"
proof -
  have ne: "IncomingMessage example_extern \<noteq> IncomingStream example_extern"
    by (simp add: example_extern_def)
  have r1: "run example_extern '':3000'' (LoopStep # [ConsumerRead 1, Consume])
         (new_conn (IncomingStream example_extern # [9, 9, 1, 5, 6])
            [\<lparr>From = '':7000'', Payload = [4], Stream = False\<rparr>])
       = Some \<lparr>input = [9, 1, 5, 6], wg = 1, pc = AtWait, rpcch = []\<rparr>"
    by (simp add: step_marker) (simp add: step_def)
  have nc: "CloseStream \<notin> set [ConsumerRead 1, Consume]"
    by simp
  have sg: "(\<forall>acts s'. CloseStream \<notin> set acts \<longrightarrow>
            run example_extern '':3000'' (LoopStep # acts)
              (new_conn (IncomingStream example_extern # [9, 9, 1, 5, 6])
                 [\<lparr>From = '':7000'', Payload = [4], Stream = False\<rparr>]) = Some s' \<longrightarrow>
            pc s' = AtWait \<and> step example_extern '':3000'' LoopStep s' = None)
     \<and> run example_extern '':3000''
           [LoopStep, ConsumerRead (length [9 :: byte, 9]), CloseStream, LoopStep, LoopStep, LoopStep]
           (new_conn ([IncomingStream example_extern] @ [9, 9] @ [IncomingMessage example_extern] @ [5, 6])
              [\<lparr>From = '':7000'', Payload = [4], Stream = False\<rparr>])
         = Some \<lparr>input = [], wg = 0, pc = AtDecode,
                 rpcch = [\<lparr>From = '':7000'', Payload = [4], Stream = False\<rparr>]
                           @ [\<lparr>From = '':3000'', Payload = [5, 6], Stream = False\<rparr>]\<rparr>"
    by (rule stream_gate [OF ne]) simp_all
  from sg nc r1
  have "step example_extern '':3000'' LoopStep \<lparr>input = [9, 1, 5, 6], wg = 1, pc = AtWait, rpcch = []\<rparr>
          = None"
    by blast
  with sg ne r1 show ?thesis
    by (simp only: list.simps) blast
qed

end
